theory Spec2Isabelle
  imports Main "HOL-Library.Word"
begin

section \<open>Data model\<close>

text \<open>
  The prototype script \<^verbatim>\<open>cuban_crow.py\<close> works on byte strings read from files.
  A byte is an 8-bit word, a byte string a list of bytes. A file is the list of its bytes;
  an open binary stream is the list of the bytes that have not been read yet.
\<close>

type_synonym byte = "8 word"
type_synonym bytes = "byte list"

text \<open>
  The Python exceptions that the modelled functions can raise, and the three error kinds
  that the specification gives to header decoding.
\<close>

datatype error =
    UnboundLocalError string
  | IndexError
  | ValueError string
  | MalformedContainer
  | UnsupportedVersion
  | NoUsableKey

text \<open>\<^verbatim>\<open>PART_SIZE = 16 * 1024**2\<close> (line 35).\<close>

definition PART_SIZE :: nat where
  "PART_SIZE = 16 * 1024 ^ 2"

section \<open>The checksum loop of \<^verbatim>\<open>compute_checksums\<close>\<close>

text \<open>
  The local variables of \<^verbatim>\<open>compute_checksums\<close> that the loop updates. The local
  \<^verbatim>\<open>file_part\<close> has no value before its first assignment (line 114), which is
  \<open>None\<close> here. The running \<^verbatim>\<open>hashlib.sha256()\<close> object \<^verbatim>\<open>total_checksum\<close> is
  represented by the bytes that were fed to it with \<^verbatim>\<open>update\<close>, in order: its
  \<^verbatim>\<open>hexdigest()\<close> is the digest of their concatenation. \<^verbatim>\<open>outfile\<close> is the content
  written so far to \<^verbatim>\<open>OUTPUT_DIR / "encrypted_content"\<close>.
\<close>

record checksum_state =
  outfile :: bytes
  part_buffer :: bytes
  file_part :: "bytes option"
  encrypted_part_checksums :: "string list"
  total_checksum :: bytes

text \<open>The state before the loop (lines 99, 100, 103 and 106).\<close>

definition initial_state :: checksum_state where
  "initial_state =
     \<lparr>outfile = [], part_buffer = [], file_part = None,
      encrypted_part_checksums = [], total_checksum = []\<rparr>"

text \<open>
  Lines 112 to 117: when the buffer has reached the part size, its first \<open>part_size\<close>
  bytes are hashed, the digest is appended and the buffer keeps the rest. The test is an
  \<^verbatim>\<open>if\<close>, so at most one digest is appended per iteration.
\<close>

definition emit_part :: "(bytes \<Rightarrow> string) \<Rightarrow> nat \<Rightarrow> checksum_state \<Rightarrow> checksum_state" where
  "emit_part sha part_size st =
     (if length (part_buffer st) \<ge> part_size
      then st\<lparr>file_part := Some (take part_size (part_buffer st)),
              encrypted_part_checksums :=
                encrypted_part_checksums st @ [sha (take part_size (part_buffer st))],
              part_buffer := drop part_size (part_buffer st)\<rparr>
      else st)"

text \<open>
  One iteration of the loop body, lines 109 to 122, for the segment \<open>part\<close> that was
  just read. \<open>sha b\<close> stands for \<^verbatim>\<open>hashlib.sha256(b).hexdigest()\<close> and
  \<open>decrypt_block\<close> for \<^verbatim>\<open>crypt4gh.lib.decrypt_block\<close>, which returns the plaintext of
  one segment or raises; both belong to libraries and are parameters. An exception of
  \<open>decrypt_block\<close> leaves the function.
\<close>

definition iteration ::
  "(bytes \<Rightarrow> string) \<Rightarrow> (bytes \<Rightarrow> bytes list \<Rightarrow> error + bytes) \<Rightarrow> nat \<Rightarrow> bytes \<Rightarrow>
   bytes \<Rightarrow> checksum_state \<Rightarrow> error + checksum_state" where
  "iteration sha decrypt_block part_size secret part st =
     (let st1 = st\<lparr>outfile := outfile st @ part, part_buffer := part_buffer st @ part\<rparr>;
          st2 = emit_part sha part_size st1
      in case decrypt_block part [secret] of
           Inl e \<Rightarrow> Inl e
         | Inr decrypted \<Rightarrow> Inr (st2\<lparr>total_checksum := total_checksum st2 @ decrypted\<rparr>))"

text \<open>
  The loop of lines 107 to 124. \<open>part\<close> is the segment read last, \<open>source\<close> the unread
  rest of the input stream; \<^verbatim>\<open>source.read(CIPHER_SEGMENT_SIZE)\<close> returns the next
  \<open>segment_size\<close> bytes, fewer at the end of the file, and the loop ends on an empty read.
  \<^verbatim>\<open>CIPHER_SEGMENT_SIZE\<close> is imported from \<^verbatim>\<open>crypt4gh.lib\<close> and is a parameter, as is the
  part size, whose value in the script is \<^const>\<open>PART_SIZE\<close>.
\<close>

function checksum_loop ::
  "(bytes \<Rightarrow> string) \<Rightarrow> (bytes \<Rightarrow> bytes list \<Rightarrow> error + bytes) \<Rightarrow> nat \<Rightarrow> nat \<Rightarrow> bytes \<Rightarrow>
   bytes \<Rightarrow> bytes \<Rightarrow> checksum_state \<Rightarrow> error + checksum_state" where
  "checksum_loop sha decrypt_block part_size segment_size secret part source st =
     (if part = [] then Inr st
      else case iteration sha decrypt_block part_size secret part st of
             Inl e \<Rightarrow> Inl e
           | Inr st' \<Rightarrow>
               checksum_loop sha decrypt_block part_size segment_size secret
                 (take segment_size source) (drop segment_size source) st')"
  by pat_completeness auto
termination
  by (relation "measure (\<lambda>(sha, decrypt_block, part_size, segment_size, secret, part, source, st).
          length source + (if part = [] then 0 else 1))") auto

declare checksum_loop.simps [simp del]

text \<open>
  Lines 125 to 128, after the loop: a non-empty buffer adds one more digest, computed
  from \<^verbatim>\<open>file_part\<close>. Reading \<^verbatim>\<open>file_part\<close> before any assignment raises
  \<^verbatim>\<open>UnboundLocalError\<close>.
\<close>

definition last_part :: "(bytes \<Rightarrow> string) \<Rightarrow> checksum_state \<Rightarrow> error + string list" where
  "last_part sha st =
     (if length (part_buffer st) \<noteq> 0
      then (case file_part st of
              None \<Rightarrow> Inl (UnboundLocalError ''file_part'')
            | Some fp \<Rightarrow> Inr (encrypted_part_checksums st @ [sha fp]))
      else Inr (encrypted_part_checksums st))"

text \<open>
  \<^verbatim>\<open>compute_checksums\<close> (lines 85 to 130) on the content \<open>file\<close> of the input file.
  \<^verbatim>\<open>source.seek(offset)\<close> followed by reads yields the bytes of the file from
  \<open>offset\<close> on, none if the offset is at or past the end. The result is the returned pair
  (part digests, whole-file digest) together with the content the call has written to
  \<^verbatim>\<open>OUTPUT_DIR / "encrypted_content"\<close>.
\<close>

definition compute_checksums ::
  "(bytes \<Rightarrow> string) \<Rightarrow> (bytes \<Rightarrow> bytes list \<Rightarrow> error + bytes) \<Rightarrow> nat \<Rightarrow> nat \<Rightarrow>
   bytes \<Rightarrow> bytes \<Rightarrow> nat \<Rightarrow> error + ((string list \<times> string) \<times> bytes)" where
  "compute_checksums sha decrypt_block part_size segment_size file secret offset =
     (let source = drop offset file
      in case checksum_loop sha decrypt_block part_size segment_size secret
                (take segment_size source) (drop segment_size source) initial_state of
           Inl e \<Rightarrow> Inl e
         | Inr st \<Rightarrow>
             (case last_part sha st of
                Inl e \<Rightarrow> Inl e
              | Inr checksums \<Rightarrow> Inr ((checksums, sha (total_checksum st)), outfile st)))"


section \<open>The library and the key files\<close>

text \<open>
  The script calls the \<^verbatim>\<open>crypt4gh\<close> library for every cryptographic step. The functions
  it calls are the fields of a record, so that every theorem holds for whatever the library
  computes. A key triple is \<^verbatim>\<open>(method, private key, public key or None)\<close>.
  \<^item> \<open>header_deconstruct stream keys\<close> is \<^verbatim>\<open>crypt4gh.header.deconstruct\<close>: the session
    keys and the optional edit list of the header, and with them the position at which it
    leaves the stream (what \<^verbatim>\<open>file_stream.tell()\<close> returns afterwards), or an exception;
  \<^item> \<open>lib_decrypt_block segment session_keys\<close> is \<^verbatim>\<open>crypt4gh.lib.decrypt_block\<close>;
  \<^item> \<open>make_packet_data_enc\<close>, \<open>header_encrypt\<close> and \<open>header_serialize\<close> are
    \<^verbatim>\<open>crypt4gh.header.make_packet_data_enc\<close>, \<^verbatim>\<open>encrypt\<close> and \<^verbatim>\<open>serialize\<close>;
  \<^item> \<open>lib_decrypt keys infile sender_pubkey\<close> is \<^verbatim>\<open>crypt4gh.lib.decrypt\<close>: the content it
    writes to \<^verbatim>\<open>outfile\<close>, or an exception;
  \<^item> \<open>CIPHER_SEGMENT_SIZE\<close> is the constant imported on line 30.
\<close>

type_synonym key_triple = "nat \<times> bytes \<times> bytes option"

record crypt4gh =
  header_deconstruct ::
    "bytes \<Rightarrow> key_triple list \<Rightarrow> error + ((bytes list \<times> nat list option) \<times> nat)"
  lib_decrypt_block :: "bytes \<Rightarrow> bytes list \<Rightarrow> error + bytes"
  make_packet_data_enc :: "nat \<Rightarrow> bytes \<Rightarrow> bytes"
  header_encrypt :: "bytes \<Rightarrow> key_triple list \<Rightarrow> bytes list"
  header_serialize :: "bytes list \<Rightarrow> bytes"
  lib_decrypt :: "key_triple list \<Rightarrow> bytes \<Rightarrow> bytes option \<Rightarrow> error + bytes"
  CIPHER_SEGMENT_SIZE :: nat

text \<open>The keys that the script loads from \<^verbatim>\<open>INPUT_DIR\<close>.\<close>

record key_files =
  ghga_sec :: bytes
  ghga_pub :: bytes
  researcher_2_sec :: bytes
  researcher_2_pub :: bytes

section \<open>Upload\<close>

text \<open>
  \<^verbatim>\<open>encryption_key_store_upload\<close> (lines 133 to 160). The result is the returned triple
  (session key, its id, content start) and the new value of the global
  \<^verbatim>\<open>SESSION_KEY\<close>. \<^verbatim>\<open>session_keys[0]\<close> raises \<^verbatim>\<open>IndexError\<close> on an empty list.
\<close>

definition encryption_key_store_upload ::
  "(bytes \<Rightarrow> string) \<Rightarrow> crypt4gh \<Rightarrow> key_files \<Rightarrow> bytes \<Rightarrow>
   error + ((bytes \<times> string \<times> nat) \<times> bytes)" where
  "encryption_key_store_upload sha lib keys first_part =
     (let ghga_keys = [(0, ghga_sec keys, None)]
      in case header_deconstruct lib first_part ghga_keys of
           Inl e \<Rightarrow> Inl e
         | Inr ((session_keys, edit_list), content_start) \<Rightarrow>
             (case session_keys of
                [] \<Rightarrow> Inl IndexError
              | session_key # others \<Rightarrow>
                  Inr ((session_key, sha session_key, content_start), session_key)))"

text \<open>
  What \<^verbatim>\<open>print\<close> writes. \<open>quoted s\<close> is \<open>s\<close> between single quotes, which is how the
  f-strings of the script quote a digest and how Python prints a string inside a list
  (for strings without quotes or escapes, as hexadecimal digests are).
\<close>

definition quoted :: "string \<Rightarrow> string" where
  "quoted s = [CHR 0x27] @ s @ [CHR 0x27]"

fun comma_separated :: "string list \<Rightarrow> string" where
  "comma_separated [] = []"
| "comma_separated [s] = s"
| "comma_separated (s # t # ts) = s @ '', '' @ comma_separated (t # ts)"

definition list_repr :: "string list \<Rightarrow> string" where
  "list_repr xs = ''['' @ comma_separated (map quoted xs) @ '']''"

definition upload_validated :: "string \<Rightarrow> string" where
  "upload_validated checksum =
     ''Upload: Checksum '' @ quoted checksum @ '' correctly validated''"

definition upload_mismatch :: "string \<Rightarrow> string \<Rightarrow> string" where
  "upload_mismatch checksum total_digest =
     ''Upload: Checksum mismatch!'' @ [CHR 0x0A] @ ''Expected: '' @ quoted checksum @
     [CHR 0x0A] @ ''Actual: '' @ quoted total_digest"

definition upload_summary :: "string list \<Rightarrow> string \<Rightarrow> string" where
  "upload_summary part_checksums encryption_secret_id =
     ''Part checksums: '' @ list_repr part_checksums @ [CHR 0x0A] @
     ''Encryption secret id: '' @ encryption_secret_id"

text \<open>
  What a completed call of \<^verbatim>\<open>interrogation_room_upload\<close> leaves behind: the texts printed
  to standard output, one per \<^verbatim>\<open>print\<close> call, the global \<^verbatim>\<open>SESSION_KEY\<close>, and the file
  \<^verbatim>\<open>OUTPUT_DIR / "encrypted_content"\<close>.
\<close>

record upload_result =
  upload_stdout :: "string list"
  session_key_global :: bytes
  encrypted_content :: bytes

text \<open>
  \<^verbatim>\<open>interrogation_room_upload\<close> (lines 59 to 82) on the content \<open>file\<close> of
  \<^verbatim>\<open>file_location\<close>. The first \<open>part_size\<close> bytes go to the key store; the offset it
  returns goes to \<^verbatim>\<open>compute_checksums\<close> unchanged. An exception of either call leaves the
  function before anything is printed. \<open>total_digest\<close> is the local \<^verbatim>\<open>total_checksum\<close> of line 71.
\<close>

definition interrogation_room_upload ::
  "(bytes \<Rightarrow> string) \<Rightarrow> crypt4gh \<Rightarrow> key_files \<Rightarrow> nat \<Rightarrow> bytes \<Rightarrow> string \<Rightarrow>
   error + upload_result" where
  "interrogation_room_upload sha lib keys part_size file checksum =
     (let first_part = take part_size file
      in case encryption_key_store_upload sha lib keys first_part of
           Inl e \<Rightarrow> Inl e
         | Inr ((encryption_secret, encryption_secret_id, offset), session_key) \<Rightarrow>
             (case compute_checksums sha (lib_decrypt_block lib) part_size
                     (CIPHER_SEGMENT_SIZE lib) file encryption_secret offset of
                Inl e \<Rightarrow> Inl e
              | Inr ((part_checksums, total_digest), content) \<Rightarrow>
                  Inr \<lparr>upload_stdout =
                         [if total_digest = checksum then upload_validated checksum
                          else upload_mismatch checksum total_digest,
                          upload_summary part_checksums encryption_secret_id],
                       session_key_global = session_key,
                       encrypted_content = content\<rparr>))"

section \<open>Download\<close>

text \<open>
  \<^verbatim>\<open>encryption_key_store_download\<close> (lines 163 to 175): the envelope for the second
  researcher, made from the global \<^verbatim>\<open>SESSION_KEY\<close>.
\<close>

definition encryption_key_store_download :: "crypt4gh \<Rightarrow> key_files \<Rightarrow> bytes \<Rightarrow> bytes" where
  "encryption_key_store_download lib keys session_key =
     (let ks = [(0, ghga_sec keys, Some (researcher_2_pub keys))];
          header_content = make_packet_data_enc lib 0 session_key;
          header_packets = header_encrypt lib header_content ks;
          header_bytes = header_serialize lib header_packets
      in header_bytes)"

definition download_mismatch :: "string \<Rightarrow> string \<Rightarrow> string \<Rightarrow> string" where
  "download_mismatch outpath checksum computed_checksum =
     ''Download: Checksum mismatch for '' @ quoted outpath @ [CHR 0x0A] @
     ''Expected: '' @ checksum @ [CHR 0x0A] @ ''Actual: '' @ computed_checksum"

definition download_valid :: "string \<Rightarrow> string" where
  "download_valid outpath = ''Download: Checksum valid for '' @ outpath"

text \<open>
  What a completed call of \<^verbatim>\<open>download\<close> leaves behind: the files
  \<^verbatim>\<open>downloaded_file\<close> and \<^verbatim>\<open>decrypted_content\<close> in \<^verbatim>\<open>OUTPUT_DIR\<close> and the texts printed to
  standard output and to standard error.
\<close>

record download_result =
  downloaded_file :: bytes
  decrypted_content :: bytes
  download_stdout :: "string list"
  download_stderr :: "string list"

text \<open>
  \<^verbatim>\<open>download\<close> (lines 187 to 226). \<open>session_key\<close> is the global \<^verbatim>\<open>SESSION_KEY\<close>,
  \<open>content\<close> what \<^verbatim>\<open>OUTPUT_DIR / "encrypted_content"\<close> holds and \<open>outpath\<close> the printed
  path of \<^verbatim>\<open>OUTPUT_DIR / "decrypted_content"\<close>. \<^verbatim>\<open>shutil.copyfileobj\<close> appends the
  whole content to the envelope.
\<close>

definition download ::
  "(bytes \<Rightarrow> string) \<Rightarrow> crypt4gh \<Rightarrow> key_files \<Rightarrow> string \<Rightarrow> bytes \<Rightarrow> bytes \<Rightarrow> string \<Rightarrow>
   error + download_result" where
  "download sha lib keys outpath session_key content checksum =
     (let envelope = encryption_key_store_download lib keys session_key;
          downloaded = envelope @ content
      in case lib_decrypt lib [(0, researcher_2_sec keys, Some (ghga_pub keys))] downloaded
                (Some (ghga_pub keys)) of
           Inl e \<Rightarrow> Inl e
         | Inr decrypted \<Rightarrow>
             (let computed_checksum = sha decrypted
              in Inr \<lparr>downloaded_file = downloaded,
                      decrypted_content = decrypted,
                      download_stdout =
                        (if checksum \<noteq> computed_checksum then [] else [download_valid outpath]),
                      download_stderr =
                        (if checksum \<noteq> computed_checksum
                         then [download_mismatch outpath checksum computed_checksum]
                         else [])\<rparr>))"

text \<open>
  \<^verbatim>\<open>run\<close> (lines 47 to 56) on the content \<open>file\<close> of
  \<^verbatim>\<open>INPUT_DIR / "50MiB.fasta.c4gh"\<close>: the upload, then the download, with the part size
  of the script.
\<close>

definition run ::
  "(bytes \<Rightarrow> string) \<Rightarrow> crypt4gh \<Rightarrow> key_files \<Rightarrow> string \<Rightarrow> bytes \<Rightarrow>
   error + (upload_result \<times> download_result)" where
  "run sha lib keys outpath file =
     (let checksum = ''3e67802e821306fe287b85001dbab213a3eb4d2560702c5740741e5111c97841''
      in case interrogation_room_upload sha lib keys PART_SIZE file checksum of
           Inl e \<Rightarrow> Inl e
         | Inr up \<Rightarrow>
             (case download sha lib keys outpath (session_key_global up)
                     (encrypted_content up) checksum of
                Inl e \<Rightarrow> Inl e
              | Inr down \<Rightarrow> Inr (up, down)))"


section \<open>The container header\<close>

text \<open>
  Modelled from the spec: header decoding, which \<^verbatim>\<open>crypt4gh.header.deconstruct\<close> performs
  and the script only calls. The wire format of section 6: an 8-byte magic constant, the
  version and the packet count as 4-byte little-endian unsigned integers, then per packet
  a 4-byte little-endian length followed by that many bytes. The values of the magic
  constant and of the accepted version are parameters.
\<close>

definition le_value :: "bytes \<Rightarrow> nat" where
  "le_value bs = foldr (\<lambda>b n. unat b + 256 * n) bs 0"

definition le32_bytes :: "nat \<Rightarrow> bytes" where
  "le32_bytes n = [of_nat n, of_nat (n div 256), of_nat (n div 65536), of_nat (n div 16777216)]"

text \<open>
  Modelled from the spec: an opened packet is a session key or an edit list (section 3).
\<close>

datatype payload = SessionKeyRecord bytes | EditListRecord "nat list"

text \<open>
  Modelled from the spec: reading \<open>n\<close> length-prefixed packets from position \<open>pos\<close> of
  the stream: the packets and the position after the last one, or nothing when the
  stream ends too early.
\<close>

fun read_packets :: "nat \<Rightarrow> bytes \<Rightarrow> nat \<Rightarrow> (bytes list \<times> nat) option" where
  "read_packets 0 stream pos = Some ([], pos)"
| "read_packets (Suc n) stream pos =
     (if length stream < pos + 4 then None
      else let len = le_value (take 4 (drop pos stream))
           in if length stream < pos + 4 + len then None
              else case read_packets n stream (pos + 4 + len) of
                     None \<Rightarrow> None
                   | Some (packets, end_pos) \<Rightarrow>
                       Some (take len (drop (pos + 4) stream) # packets, end_pos))"

text \<open>
  Modelled from the spec: a packet is tried against every recipient key in order until
  one opens it (section 4.2). \<open>kx_open packet private_key\<close> is the \<^verbatim>\<open>open\<close> of the key
  exchange unit followed by the decoding of the payload, a parameter; \<open>None\<close> is its
  authentication failure.
\<close>

fun open_packet ::
  "(bytes \<Rightarrow> bytes \<Rightarrow> payload option) \<Rightarrow> key_triple list \<Rightarrow> bytes \<Rightarrow> payload option" where
  "open_packet kx_open [] packet = None"
| "open_packet kx_open ((key_id, private_key, sender_public_key) # keys) packet =
     (case kx_open packet private_key of
        Some opened \<Rightarrow> Some opened
      | None \<Rightarrow> open_packet kx_open keys packet)"

fun session_keys_of :: "payload list \<Rightarrow> bytes list" where
  "session_keys_of [] = []"
| "session_keys_of (SessionKeyRecord k # ps) = k # session_keys_of ps"
| "session_keys_of (EditListRecord e # ps) = session_keys_of ps"

fun edit_list_of :: "payload list \<Rightarrow> nat list option" where
  "edit_list_of [] = None"
| "edit_list_of (EditListRecord e # ps) = Some e"
| "edit_list_of (SessionKeyRecord k # ps) = edit_list_of ps"

text \<open>
  Modelled from the spec: \<^verbatim>\<open>decode_header\<close> of section 4.2. Magic and version are checked
  before any packet is opened; a packet that no key opens is skipped; a header in which
  no packet opens fails; the result carries the position after the last packet.
\<close>

definition decode_header ::
  "bytes \<Rightarrow> nat \<Rightarrow> (bytes \<Rightarrow> bytes \<Rightarrow> payload option) \<Rightarrow> bytes \<Rightarrow> key_triple list \<Rightarrow>
   error + ((bytes list \<times> nat list option) \<times> nat)" where
  "decode_header magic version kx_open stream recipient_keys =
     (if length stream < 8 \<or> take 8 stream \<noteq> magic then Inl MalformedContainer
      else if length stream < 12 then Inl MalformedContainer
      else if le_value (take 4 (drop 8 stream)) \<noteq> version then Inl UnsupportedVersion
      else if length stream < 16 then Inl MalformedContainer
      else case read_packets (le_value (take 4 (drop 12 stream))) stream 16 of
             None \<Rightarrow> Inl MalformedContainer
           | Some (packets, end_pos) \<Rightarrow>
               (let opened = List.map_filter (open_packet kx_open recipient_keys) packets
                in if opened = [] then Inl NoUsableKey
                   else Inr ((session_keys_of opened, edit_list_of opened), end_pos)))"

text \<open>Modelled from the spec: the bytes of a header with the given packets (section 6).\<close>

definition serialize_packets :: "bytes list \<Rightarrow> bytes" where
  "serialize_packets packets = concat (map (\<lambda>p. le32_bytes (length p) @ p) packets)"

definition serialize_header :: "bytes \<Rightarrow> nat \<Rightarrow> bytes list \<Rightarrow> bytes" where
  "serialize_header magic version packets =
     magic @ le32_bytes version @ le32_bytes (length packets) @ serialize_packets packets"

section \<open>The loop as a transition system\<close>

text \<open>
  The configurations at the head of the loop of \<^verbatim>\<open>compute_checksums\<close> on the body
  \<open>body\<close>: the segment read last, the unread rest and the state. The first one follows the
  first read (line 107); each further one follows one iteration and the read at its end
  (line 124).
\<close>

inductive loop_head ::
  "(bytes \<Rightarrow> string) \<Rightarrow> (bytes \<Rightarrow> bytes list \<Rightarrow> error + bytes) \<Rightarrow> nat \<Rightarrow> nat \<Rightarrow> bytes \<Rightarrow>
   bytes \<Rightarrow> bytes \<Rightarrow> bytes \<Rightarrow> checksum_state \<Rightarrow> bool"
  for sha decrypt_block part_size segment_size secret body where
  first_read:
    "loop_head sha decrypt_block part_size segment_size secret body
       (take segment_size body) (drop segment_size body) initial_state"
| next_read:
    "loop_head sha decrypt_block part_size segment_size secret body part source st \<Longrightarrow>
     part \<noteq> [] \<Longrightarrow>
     iteration sha decrypt_block part_size secret part st = Inr st' \<Longrightarrow>
     loop_head sha decrypt_block part_size segment_size secret body
       (take segment_size source) (drop segment_size source) st'"

text \<open>
  The invariant of the loop, for the list \<open>parts\<close> of the buffer slices hashed so far:
  the bytes written are these slices followed by the buffer, every slice has the part size,
  the digests are those of the slices, \<^verbatim>\<open>file_part\<close> is the last slice, and a buffer that
  was never cut is shorter than the part size once something was read.
\<close>

definition loop_inv ::
  "(bytes \<Rightarrow> string) \<Rightarrow> nat \<Rightarrow> bytes \<Rightarrow> bytes \<Rightarrow> bytes \<Rightarrow> checksum_state \<Rightarrow> bytes list \<Rightarrow> bool" where
  "loop_inv sha part_size body part source st parts \<longleftrightarrow>
     body = outfile st @ part @ source \<and>
     outfile st = concat parts @ part_buffer st \<and>
     (\<forall>p \<in> set parts. length p = part_size) \<and>
     encrypted_part_checksums st = map sha parts \<and>
     file_part st = (if parts = [] then None else Some (last parts)) \<and>
     (parts = [] \<longrightarrow> outfile st \<noteq> [] \<longrightarrow> length (part_buffer st) < part_size)"

section \<open>Reference definitions\<close>

text \<open>
  The segments of a body as the reads of the loop cut it: pieces of \<open>n\<close> bytes, the last
  one possibly shorter; and their plaintexts concatenated in order, each segment
  decrypted on its own with the one key, the first exception if there is one.
\<close>

function segments :: "nat \<Rightarrow> bytes \<Rightarrow> bytes list" where
  "segments n xs = (if n = 0 \<or> xs = [] then [] else take n xs # segments n (drop n xs))"
  by pat_completeness auto
termination
  by (relation "measure (\<lambda>(n, xs). length xs)") auto

declare segments.simps [simp del]

fun decrypt_segments ::
  "(bytes \<Rightarrow> bytes list \<Rightarrow> error + bytes) \<Rightarrow> bytes \<Rightarrow> bytes list \<Rightarrow> error + bytes" where
  "decrypt_segments decrypt_block secret [] = Inr []"
| "decrypt_segments decrypt_block secret (s # ss) =
     (case decrypt_block s [secret] of
        Inl e \<Rightarrow> Inl e
      | Inr d \<Rightarrow>
          (case decrypt_segments decrypt_block secret ss of
             Inl e \<Rightarrow> Inl e
           | Inr ds \<Rightarrow> Inr (d @ ds)))"

section \<open>Example data\<close>

text \<open>
  A stand-in for the digest (two hexadecimal digits per byte) and for
  \<^verbatim>\<open>decrypt_block\<close> (a segment opens under the first key whose first byte equals the
  first byte of the segment, the plaintext being the rest of the segment), to run the
  functions on small inputs.
\<close>

definition hex_digit :: "nat \<Rightarrow> char" where
  "hex_digit n = ''0123456789abcdef'' ! (n mod 16)"

definition example_sha :: "bytes \<Rightarrow> string" where
  "example_sha b = concat (map (\<lambda>w. [hex_digit (unat w div 16), hex_digit (unat w)]) b)"

fun example_decrypt_block :: "bytes \<Rightarrow> bytes list \<Rightarrow> error + bytes" where
  "example_decrypt_block segment [] = Inl (ValueError ''Could not decrypt that block'')"
| "example_decrypt_block segment (k # ks) =
     (if segment \<noteq> [] \<and> k \<noteq> [] \<and> hd segment = hd k then Inr (tl segment)
      else example_decrypt_block segment ks)"

text \<open>
  A stand-in for the library, in the header format above: a packet opens under a private
  key whose first byte is the first byte of the packet, and its payload is the session key
  that follows; a packet is sealed by putting the first byte of the recipient's public key
  in front. Key pairs have equal halves.
\<close>

definition example_magic :: bytes where
  "example_magic = [99, 114, 121, 112, 116, 52, 103, 104]"

definition example_open :: "bytes \<Rightarrow> bytes \<Rightarrow> payload option" where
  "example_open packet private_key =
     (if packet \<noteq> [] \<and> private_key \<noteq> [] \<and> hd packet = hd private_key
      then Some (SessionKeyRecord (tl packet)) else None)"

definition example_seal :: "bytes \<Rightarrow> key_triple list \<Rightarrow> bytes list" where
  "example_seal content ks =
     map (\<lambda>(method, private_key, public_key).
            (case public_key of None \<Rightarrow> content | Some pk \<Rightarrow> take 1 pk @ content)) ks"

definition example_decrypt :: "key_triple list \<Rightarrow> bytes \<Rightarrow> bytes option \<Rightarrow> error + bytes" where
  "example_decrypt ks infile sender_pubkey =
     (case decode_header example_magic 1 example_open infile ks of
        Inl e \<Rightarrow> Inl e
      | Inr ((session_keys, edit_list), pos) \<Rightarrow>
          (case session_keys of
             [] \<Rightarrow> Inl (ValueError ''No session key'')
           | k # others \<Rightarrow> decrypt_segments example_decrypt_block k (segments 11 (drop pos infile))))"

definition example_lib :: crypt4gh where
  "example_lib =
     \<lparr>header_deconstruct = decode_header example_magic 1 example_open,
      lib_decrypt_block = example_decrypt_block,
      make_packet_data_enc = (\<lambda>method session_key. session_key),
      header_encrypt = example_seal,
      header_serialize = serialize_header example_magic 1,
      lib_decrypt = example_decrypt,
      CIPHER_SEGMENT_SIZE = 11\<rparr>"

definition example_keys :: key_files where
  "example_keys = \<lparr>ghga_sec = [7], ghga_pub = [7], researcher_2_sec = [8], researcher_2_pub = [8]\<rparr>"

text \<open>
  A container for the key \<open>[7]\<close>: a header with one packet that holds the session key
  \<open>[1]\<close>, and a body of two segments of 11 bytes.
\<close>

definition example_header :: bytes where
  "example_header = example_magic @ [1, 0, 0, 0] @ [1, 0, 0, 0] @ [2, 0, 0, 0] @ [7, 1]"

definition example_body :: bytes where
  "example_body =
     [1, 10, 11, 12, 13, 14, 15, 16, 17, 18, 19] @ [1, 20, 21, 22, 23, 24, 25, 26, 27, 28, 29]"

definition example_file :: bytes where
  "example_file = example_header @ example_body"

section \<open>Properties of one iteration and of the loop\<close>

lemma loop_inv_initial:
  "loop_inv sha part_size body (take n body) (drop n body) initial_state []"
  by (simp add: loop_inv_def initial_state_def)

lemma iteration_emit:
  assumes "part_size \<le> length (part_buffer st @ part)"
    and "iteration sha decrypt_block part_size secret part st = Inr st'"
  shows "outfile st' = outfile st @ part"
    and "part_buffer st' = drop part_size (part_buffer st @ part)"
    and "file_part st' = Some (take part_size (part_buffer st @ part))"
    and "encrypted_part_checksums st' =
           encrypted_part_checksums st @ [sha (take part_size (part_buffer st @ part))]"
    and "\<exists>d. decrypt_block part [secret] = Inr d \<and> total_checksum st' = total_checksum st @ d"
  using assms
  by (auto simp add: iteration_def emit_part_def Let_def simp del: take_append drop_append
        split: sum.splits)

lemma iteration_keep:
  assumes "\<not> part_size \<le> length (part_buffer st @ part)"
    and "iteration sha decrypt_block part_size secret part st = Inr st'"
  shows "outfile st' = outfile st @ part"
    and "part_buffer st' = part_buffer st @ part"
    and "file_part st' = file_part st"
    and "encrypted_part_checksums st' = encrypted_part_checksums st"
    and "\<exists>d. decrypt_block part [secret] = Inr d \<and> total_checksum st' = total_checksum st @ d"
  using assms
  by (auto simp add: iteration_def emit_part_def Let_def split: sum.splits)

lemma loop_inv_iteration:
  assumes inv: "loop_inv sha part_size body part source st parts"
    and ne: "part \<noteq> []"
    and it: "iteration sha decrypt_block part_size secret part st = Inr st'"
  shows "\<exists>parts'. loop_inv sha part_size body (take n source) (drop n source) st' parts'"
proof (cases "part_size \<le> length (part_buffer st @ part)")
  case True
  let ?b = "part_buffer st @ part"
  note e = iteration_emit [OF True it]
  have len: "length (take part_size ?b) = part_size"
    using True by simp
  have out: "outfile st' = concat (parts @ [take part_size ?b]) @ part_buffer st'"
    using inv e(1,2) by (simp add: loop_inv_def del: take_append drop_append)
  have "loop_inv sha part_size body (take n source) (drop n source) st'
          (parts @ [take part_size ?b])"
    unfolding loop_inv_def
    using inv e(3,4) len out e(1)
    by (simp add: loop_inv_def del: take_append drop_append)
  then show ?thesis ..
next
  case False
  note k = iteration_keep [OF False it]
  have "loop_inv sha part_size body (take n source) (drop n source) st' parts"
    using inv k(1-4) False ne by (auto simp add: loop_inv_def)
  then show ?thesis ..
qed

lemma loop_head_inv:
  assumes "loop_head sha decrypt_block part_size segment_size secret body part source st"
  shows "\<exists>parts. loop_inv sha part_size body part source st parts"
  using assms
proof (induction rule: loop_head.induct)
  case first_read
  show ?case using loop_inv_initial by blast
next
  case (next_read part source st st')
  then show ?case using loop_inv_iteration by blast
qed

lemma loop_head_part_length:
  assumes "loop_head sha decrypt_block part_size segment_size secret body part source st"
  shows "length part \<le> segment_size"
  using assms by (induction rule: loop_head.induct) simp_all

lemma loop_head_buffer_bound:
  assumes "loop_head sha decrypt_block part_size segment_size secret body part source st"
    and "0 < part_size" and "segment_size \<le> part_size"
  shows "length (part_buffer st) < part_size"
  using assms
proof (induction rule: loop_head.induct)
  case first_read
  then show ?case by (simp add: initial_state_def)
next
  case (next_read part source st st')
  have lp: "length part \<le> segment_size"
    using next_read.hyps(1) by (rule loop_head_part_length)
  have b: "length (part_buffer st) < part_size"
    using next_read by simp
  show ?case
  proof (cases "part_size \<le> length (part_buffer st @ part)")
    case True
    from iteration_emit(2) [OF True next_read.hyps(3)]
    show ?thesis using lp b next_read.prems by simp
  next
    case False
    from iteration_keep(2) [OF False next_read.hyps(3)]
    show ?thesis using False by simp
  qed
qed

lemma uniform_concat_nth:
  "(\<forall>p \<in> set parts. length p = n) \<Longrightarrow> i < length parts \<Longrightarrow>
   take n (drop (i * n) (concat parts @ r)) = parts ! i"
proof (induction parts arbitrary: i)
  case Nil
  then show ?case by simp
next
  case (Cons p ps)
  show ?case
  proof (cases i)
    case 0
    with Cons.prems show ?thesis by simp
  next
    case (Suc j)
    with Cons.prems have "take n (drop (j * n) (concat ps @ r)) = ps ! j"
      using Cons.IH by simp
    with Suc Cons.prems show ?thesis by simp
  qed
qed

lemma uniform_concat_length:
  "(\<forall>p \<in> set parts. length p = n) \<Longrightarrow> length (concat parts) = length parts * n"
  by (induction parts) simp_all


lemma iteration_outfile_total:
  "iteration sha decrypt_block part_size secret part st = Inr st' \<Longrightarrow>
   outfile st' = outfile st @ part \<and>
   (\<exists>d. decrypt_block part [secret] = Inr d \<and> total_checksum st' = total_checksum st @ d)"
  by (cases "part_size \<le> length (part_buffer st @ part)")
     (blast dest: iteration_emit(1,5) iteration_keep(1,5))+

lemma iteration_error:
  "iteration sha decrypt_block part_size secret part st = Inl e \<longleftrightarrow>
   decrypt_block part [secret] = Inl e"
  by (simp add: iteration_def Let_def split: sum.splits)

lemma concat_segments: "0 < n \<Longrightarrow> concat (segments n xs) = xs"
proof (induction n xs rule: segments.induct)
  case (1 n xs)
  then show ?case by (subst segments.simps) simp
qed

lemma checksum_loop_forward:
  "case decrypt_segments decrypt_block secret (segments segment_size source) of
     Inl e \<Rightarrow>
       checksum_loop sha decrypt_block part_size segment_size secret
         (take segment_size source) (drop segment_size source) st = Inl e
   | Inr plain \<Rightarrow>
       (\<exists>st'. checksum_loop sha decrypt_block part_size segment_size secret
                 (take segment_size source) (drop segment_size source) st = Inr st' \<and>
              total_checksum st' = total_checksum st @ plain \<and>
              outfile st' = outfile st @ concat (segments segment_size source))"
proof (induction segment_size source arbitrary: st rule: segments.induct)
  case (1 n xs)
  show ?case
  proof (cases "n = 0 \<or> xs = []")
    case True
    then have "take n xs = []" by auto
    then have "checksum_loop sha decrypt_block part_size n secret
                 (take n xs) (drop n xs) st = Inr st"
      by (simp add: checksum_loop.simps)
    with True show ?thesis
      by (simp add: segments.simps [of n xs])
  next
    case False
    then have ne: "take n xs \<noteq> []" by auto
    show ?thesis
    proof (cases "iteration sha decrypt_block part_size secret (take n xs) st")
      case (Inl e)
      then have "decrypt_block (take n xs) [secret] = Inl e"
        by (simp add: iteration_error)
      with False ne Inl show ?thesis
        by (simp add: segments.simps [of n xs] checksum_loop.simps [of _ _ _ _ _ "take n xs"])
    next
      case (Inr st1)
      from iteration_outfile_total [OF Inr] obtain d where
        o: "outfile st1 = outfile st @ take n xs" and
        d: "decrypt_block (take n xs) [secret] = Inr d" and
        t: "total_checksum st1 = total_checksum st @ d"
        by blast
      from "1.IH" [OF False, of st1] False ne Inr o d t show ?thesis
        by (auto simp add: segments.simps [of n xs]
              checksum_loop.simps [of _ _ _ _ _ "take n xs"] split: sum.splits)
    qed
  qed
qed

lemma checksum_loop_reaches:
  "loop_head sha decrypt_block part_size segment_size secret body part source st \<Longrightarrow>
   checksum_loop sha decrypt_block part_size segment_size secret part source st = Inr st' \<Longrightarrow>
   \<exists>source'. loop_head sha decrypt_block part_size segment_size secret body [] source' st'"
proof (induction sha decrypt_block part_size segment_size secret part source st
    rule: checksum_loop.induct)
  case (1 sha decrypt_block part_size segment_size secret part source st)
  show ?case
  proof (cases "part = []")
    case True
    with "1.prems" show ?thesis
      by (auto simp add: checksum_loop.simps [of _ _ _ _ _ "[]"])
  next
    case False
    with "1.prems"(2) obtain st1 where
      it: "iteration sha decrypt_block part_size secret part st = Inr st1" and
      rest: "checksum_loop sha decrypt_block part_size segment_size secret
               (take segment_size source) (drop segment_size source) st1 = Inr st'"
      by (auto simp add: checksum_loop.simps [of _ _ _ _ _ part] split: sum.splits)
    have "loop_head sha decrypt_block part_size segment_size secret body
            (take segment_size source) (drop segment_size source) st1"
      using "1.prems"(1) False it by (rule next_read)
    with "1.IH" [OF False it] rest show ?thesis by blast
  qed
qed


lemma checksum_loop_final_state:
  assumes dec: "decrypt_segments decrypt_block secret (segments segment_size body) = Inr plain"
    and seg: "0 < segment_size"
  shows "\<exists>st parts source'.
           checksum_loop sha decrypt_block part_size segment_size secret
             (take segment_size body) (drop segment_size body) initial_state = Inr st \<and>
           total_checksum st = plain \<and> outfile st = body \<and>
           loop_head sha decrypt_block part_size segment_size secret body [] source' st \<and>
           loop_inv sha part_size body [] source' st parts"
proof -
  from checksum_loop_forward [where decrypt_block = decrypt_block and secret = secret
      and segment_size = segment_size and source = body and sha = sha
      and part_size = part_size and st = initial_state] dec seg
  obtain st where
    run: "checksum_loop sha decrypt_block part_size segment_size secret
            (take segment_size body) (drop segment_size body) initial_state = Inr st" and
    tot: "total_checksum st = plain" and out: "outfile st = body"
    by (auto simp add: initial_state_def concat_segments)
  from checksum_loop_reaches [OF first_read run] obtain source' where
    head: "loop_head sha decrypt_block part_size segment_size secret body [] source' st"
    by blast
  from loop_head_inv [OF head] obtain parts where
    "loop_inv sha part_size body [] source' st parts" by blast
  with run tot out head show ?thesis by blast
qed

lemma checksum_loop_decrypt_error:
  assumes "decrypt_segments decrypt_block secret (segments segment_size body) = Inl e"
  shows "checksum_loop sha decrypt_block part_size segment_size secret
           (take segment_size body) (drop segment_size body) st = Inl e"
  using checksum_loop_forward [where decrypt_block = decrypt_block and secret = secret
      and segment_size = segment_size and source = body and sha = sha
      and part_size = part_size and st = st] assms
  by simp

lemma compute_checksums_decrypt_error:
  assumes "decrypt_segments decrypt_block secret (segments segment_size (drop offset file)) = Inl e"
  shows "compute_checksums sha decrypt_block part_size segment_size file secret offset = Inl e"
  using assms
  by (simp add: compute_checksums_def checksum_loop_decrypt_error del: drop_drop)

lemma compute_checksums_final:
  assumes dec: "decrypt_segments decrypt_block secret (segments segment_size (drop offset file)) = Inr plain"
    and seg: "0 < segment_size"
  shows "\<exists>st parts source'.
           compute_checksums sha decrypt_block part_size segment_size file secret offset =
             (case last_part sha st of
                Inl e \<Rightarrow> Inl e
              | Inr checksums \<Rightarrow> Inr ((checksums, sha plain), drop offset file)) \<and>
           outfile st = drop offset file \<and>
           loop_head sha decrypt_block part_size segment_size secret (drop offset file) [] source' st \<and>
           loop_inv sha part_size (drop offset file) [] source' st parts"
proof -
  from checksum_loop_final_state [OF dec seg, where sha = sha and part_size = part_size]
  obtain st parts source' where
    run: "checksum_loop sha decrypt_block part_size segment_size secret
            (take segment_size (drop offset file)) (drop segment_size (drop offset file))
            initial_state = Inr st" and
    tot: "total_checksum st = plain" and
    out: "outfile st = drop offset file" and
    head: "loop_head sha decrypt_block part_size segment_size secret (drop offset file) []
             source' st" and
    inv: "loop_inv sha part_size (drop offset file) [] source' st parts"
    by blast
  have "compute_checksums sha decrypt_block part_size segment_size file secret offset =
          (case last_part sha st of
             Inl e \<Rightarrow> Inl e
           | Inr checksums \<Rightarrow> Inr ((checksums, sha plain), drop offset file))"
    using run tot out by (simp add: compute_checksums_def del: drop_drop split: sum.splits)
  with out head inv show ?thesis by blast
qed

lemma three_parts:
  assumes "length (parts :: 'a list) = 3"
  shows "parts = [parts ! 0, parts ! 1, parts ! 2]"
proof -
  from assms obtain a b c where "parts = [a, b, c]"
    by (auto simp add: numeral_3_eq_3 length_Suc_conv)
  then show ?thesis by simp
qed

section \<open>Properties of header decoding\<close>

lemma byte_low: "(of_nat (unat x + 256 * k) :: byte) = x"
proof -
  have z: "(256 :: byte) = 0" by simp
  have "(of_nat (256 * k) :: byte) = 256 * of_nat k" by simp
  also have "\<dots> = 0" by (simp only: z mult_zero_left)
  finally show ?thesis by simp
qed

lemma byte_high: "(unat (x :: byte) + 256 * k) div 256 = k"
proof -
  have "unat x < 256" using unsigned_less [of x, where ?'a = nat] by simp
  then show ?thesis by simp
qed

lemma le32_bytes_le_value:
  assumes "length bs = 4"
  shows "le32_bytes (le_value bs) = bs"
proof -
  from assms obtain a b c d where bs: "bs = [a, b, c, d]"
    by (auto simp add: numeral_eq_Suc length_Suc_conv)
  let ?v3 = "unat d + 256 * 0"
  let ?v2 = "unat c + 256 * ?v3"
  let ?v1 = "unat b + 256 * ?v2"
  let ?v0 = "unat a + 256 * ?v1"
  have v: "le_value bs = ?v0" by (simp add: bs le_value_def)
  have d1: "?v0 div 256 = ?v1" by (rule byte_high)
  have d2: "?v0 div 65536 = ?v2"
  proof -
    have "?v0 div 65536 = ?v0 div 256 div 256" by (simp only: div_mult2_eq [symmetric]) simp
    also have "\<dots> = ?v2" by (simp only: byte_high)
    finally show ?thesis .
  qed
  have d3: "?v0 div 16777216 = ?v3"
  proof -
    have "?v0 div 16777216 = ?v0 div 256 div 256 div 256"
      by (simp only: div_mult2_eq [symmetric]) simp
    also have "\<dots> = ?v3" by (simp only: byte_high)
    finally show ?thesis .
  qed
  have "le32_bytes ?v0 = [a, b, c, d]"
    unfolding le32_bytes_def d1 d2 d3 by (simp only: byte_low)
  with v bs show ?thesis by simp
qed

lemma take_drop_append_next:
  "a \<le> b \<Longrightarrow> take (b - a) (drop a xs) @ take c (drop b xs) = take (b - a + c) (drop a xs)"
proof -
  assume ab: "a \<le> b"
  have "take (b - a + c) (drop a xs) = take (b - a) (drop a xs) @ take c (drop (b - a) (drop a xs))"
    by (simp only: take_add)
  with ab show ?thesis by simp
qed

lemma read_packets_consumed:
  "read_packets n stream pos = Some (packets, end_pos) \<Longrightarrow> pos \<le> length stream \<Longrightarrow>
   pos \<le> end_pos \<and> end_pos \<le> length stream \<and> length packets = n \<and>
   take (end_pos - pos) (drop pos stream) = serialize_packets packets"
proof (induction n arbitrary: pos packets)
  case 0
  then show ?case by (simp add: serialize_packets_def)
next
  case (Suc n)
  let ?len = "le_value (take 4 (drop pos stream))"
  from Suc.prems(1) have l4: "pos + 4 \<le> length stream" and ll: "pos + 4 + ?len \<le> length stream"
    by (auto simp add: Let_def split: if_splits)
  from Suc.prems(1) l4 ll obtain rest where
    rec: "read_packets n stream (pos + 4 + ?len) = Some (rest, end_pos)" and
    packets: "packets = take ?len (drop (pos + 4) stream) # rest"
    by (auto simp add: Let_def split: option.splits)
  from Suc.IH [OF rec ll] have
    le: "pos + 4 + ?len \<le> end_pos" and e: "end_pos \<le> length stream" and
    n: "length rest = n" and
    ser: "take (end_pos - (pos + 4 + ?len)) (drop (pos + 4 + ?len) stream) = serialize_packets rest"
    by simp_all
  have len_p: "length (take ?len (drop (pos + 4) stream)) = ?len"
    using ll by simp
  have pre: "le32_bytes ?len = take 4 (drop pos stream)"
    using l4 by (simp add: le32_bytes_le_value)
  have "serialize_packets packets =
          take 4 (drop pos stream) @ take ?len (drop (pos + 4) stream) @
          take (end_pos - (pos + 4 + ?len)) (drop (pos + 4 + ?len) stream)"
    unfolding packets serialize_packets_def
    using len_p pre ser by (simp add: serialize_packets_def del: length_take)
  also have "\<dots> = take (end_pos - pos) (drop pos stream)"
  proof -
    have "take 4 (drop pos stream) @ take ?len (drop (pos + 4) stream) =
            take (4 + ?len) (drop pos stream)"
      using take_drop_append_next [of pos "pos + 4" stream ?len] by simp
    moreover have "take (4 + ?len) (drop pos stream) @
            take (end_pos - (pos + 4 + ?len)) (drop (pos + 4 + ?len) stream) =
            take (end_pos - pos) (drop pos stream)"
      using take_drop_append_next [of pos "pos + 4 + ?len" stream "end_pos - (pos + 4 + ?len)"] le
      by (simp add: add.assoc)
    ultimately show ?thesis by (simp del: append_assoc add: append_assoc [symmetric])
  qed
  finally show ?case using le e n packets by simp
qed


section \<open>The claims\<close>

text \<open>
  C10. If the body is empty, that is, the offset is at or past the end of the file,
  \<^verbatim>\<open>compute_checksums\<close> returns no part digest and the digest of the empty byte
  string, raises nothing, and writes an empty file.
\<close>

theorem empty_body:
  assumes "length file \<le> offset"
  shows "compute_checksums sha decrypt_block part_size segment_size file secret offset =
           Inr (([], sha []), [])"
  using assms
  by (simp add: compute_checksums_def checksum_loop.simps last_part_def initial_state_def)

theorem empty_body_witness:
  "length [1, 2, 3 :: byte] \<le> 3 \<and>
   compute_checksums example_sha example_decrypt_block 4 2 [1, 2, 3] [1] 3 = Inr (([], []), [])"
  using empty_body [of "[1, 2, 3]" 3 example_sha example_decrypt_block 4 2 "[1]"]
  by (simp add: example_sha_def)

text \<open>
  C8. For a non-empty body shorter than the part size (and a positive segment size)
  \<^verbatim>\<open>compute_checksums\<close> never returns: either a segment fails to decrypt and that
  exception leaves the function, or the loop ends with a non-empty buffer and
  \<^verbatim>\<open>file_part\<close> never assigned, and reading it raises \<^verbatim>\<open>UnboundLocalError\<close>.
\<close>

theorem short_body_fails:
  assumes seg: "0 < segment_size"
    and ne: "drop offset file \<noteq> []"
    and short: "length (drop offset file) < part_size"
  shows "compute_checksums sha decrypt_block part_size segment_size file secret offset =
           (case decrypt_segments decrypt_block secret (segments segment_size (drop offset file)) of
              Inl e \<Rightarrow> Inl e
            | Inr plain \<Rightarrow> Inl (UnboundLocalError ''file_part''))"
proof (cases "decrypt_segments decrypt_block secret (segments segment_size (drop offset file))")
  case (Inl e)
  then show ?thesis
    by (simp add: compute_checksums_def checksum_loop_decrypt_error del: drop_drop)
next
  case (Inr plain)
  let ?body = "drop offset file"
  from checksum_loop_final_state [OF Inr seg, where sha = sha and part_size = part_size]
  obtain st parts source' where
    run: "checksum_loop sha decrypt_block part_size segment_size secret
            (take segment_size ?body) (drop segment_size ?body) initial_state = Inr st" and
    out: "outfile st = ?body" and
    inv: "loop_inv sha part_size ?body [] source' st parts"
    by blast
  from inv have uni: "\<forall>p \<in> set parts. length p = part_size"
    by (simp add: loop_inv_def)
  from inv out have split: "?body = concat parts @ part_buffer st"
    by (simp add: loop_inv_def)
  have "parts = []"
  proof (rule ccontr)
    assume "parts \<noteq> []"
    then have "1 \<le> length parts" by (cases parts) simp_all
    then have "part_size \<le> length parts * part_size" by simp
    also have "\<dots> = length (concat parts)"
      by (rule uniform_concat_length [OF uni, symmetric])
    also have "\<dots> \<le> length ?body"
      by (subst split) simp
    finally show False using short by simp
  qed
  with inv out ne have "file_part st = None" and "part_buffer st \<noteq> []"
    by (auto simp add: loop_inv_def)
  with run Inr show ?thesis
    by (simp add: compute_checksums_def last_part_def del: drop_drop)
qed


theorem short_body_fails_witness:
  "(0::nat) < 2 \<and> drop 2 [9, 9, 1, 5, 1 :: byte] \<noteq> [] \<and>
   length (drop 2 [9, 9, 1, 5, 1 :: byte]) < 4 \<and>
   compute_checksums example_sha example_decrypt_block 4 2 [9, 9, 1, 5, 1] [1] 2 =
     Inl (UnboundLocalError ''file_part'')"
  using short_body_fails [of 2 2 "[9, 9, 1, 5, 1]" 4 example_sha example_decrypt_block "[1]"]
  by (simp add: segments.simps)


text \<open>
  C9. When the segment size is at most the part size (which is positive), the buffer holds
  fewer than \<open>part_size\<close> bytes at the head of the loop, before every iteration and at
  its end. The bytes read so far are the consumed prefix of the body; the buffer is what
  follows the hashed slices in it, and digest number \<open>i\<close> is the digest of the bytes
  \<open>i * part_size\<close> up to \<open>(i + 1) * part_size\<close> of the body: the hashed slices
  partition the prefix without gap or overlap.
\<close>

theorem buffer_below_part_size:
  assumes head: "loop_head sha decrypt_block part_size segment_size secret body part source st"
    and pos: "0 < part_size" and le: "segment_size \<le> part_size"
  shows "length (part_buffer st) < part_size \<and>
         body = outfile st @ part @ source \<and>
         part_buffer st = drop (length (encrypted_part_checksums st) * part_size) (outfile st) \<and>
         (\<forall>i < length (encrypted_part_checksums st).
            encrypted_part_checksums st ! i = sha (take part_size (drop (i * part_size) body)))"
proof -
  from loop_head_inv [OF head] obtain parts where
    inv: "loop_inv sha part_size body part source st parts" by blast
  from inv have uni: "\<forall>p \<in> set parts. length p = part_size"
    and out: "outfile st = concat parts @ part_buffer st"
    and body: "body = outfile st @ part @ source"
    and cs: "encrypted_part_checksums st = map sha parts"
    by (simp_all add: loop_inv_def)
  have len: "length (concat parts) = length parts * part_size"
    by (rule uniform_concat_length [OF uni])
  have buf: "part_buffer st = drop (length (encrypted_part_checksums st) * part_size) (outfile st)"
    using len by (simp add: cs out del: length_concat)
  have nth: "encrypted_part_checksums st ! i = sha (take part_size (drop (i * part_size) body))"
    if "i < length (encrypted_part_checksums st)" for i
  proof -
    from that have i: "i < length parts" by (simp add: cs)
    have b: "body = concat parts @ (part_buffer st @ part @ source)"
      by (simp add: body out)
    have "take part_size (drop (i * part_size) body) = parts ! i"
      unfolding b by (rule uniform_concat_nth [OF uni i])
    with i show ?thesis by (simp add: cs)
  qed
  from loop_head_buffer_bound [OF head pos le] body buf nth show ?thesis by blast
qed

theorem buffer_below_part_size_witness:
  "loop_head example_sha example_decrypt_block 2 2 [1] [1, 2, 1, 3, 1] [1, 3] [1]
     \<lparr>outfile = [1, 2], part_buffer = [], file_part = Some [1, 2],
      encrypted_part_checksums = [''0102''], total_checksum = [2]\<rparr> \<and>
   (0::nat) < 2 \<and> (2::nat) \<le> 2 \<and>
   [''0102''] ! 0 = example_sha (take 2 (drop (0 * 2) [1, 2, 1, 3, 1]))"
proof -
  have h: "loop_head example_sha example_decrypt_block 2 2 [1] [1, 2, 1, 3, 1] [1, 3] [1]
     \<lparr>outfile = [1, 2], part_buffer = [], file_part = Some [1, 2],
      encrypted_part_checksums = [''0102''], total_checksum = [2]\<rparr>"
    using next_read [OF first_read, where body = "[1, 2, 1, 3, 1]" and segment_size = 2
        and sha = example_sha and decrypt_block = example_decrypt_block and part_size = 2
        and secret = "[1]"]
    by (simp add: iteration_def emit_part_def initial_state_def example_sha_def hex_digit_def)
  from buffer_below_part_size [OF h] show ?thesis using h by simp
qed



text \<open>
  C4. The whole-file digest that \<^verbatim>\<open>compute_checksums\<close> returns is the digest of the
  concatenation, in order, of the decrypted segments of the body, for every segment size
  and part size (multiples of each other or not). A digest is returned whenever every
  segment decrypts and the body is at least one part long.
\<close>

theorem whole_file_digest:
  "(compute_checksums sha decrypt_block part_size segment_size file secret offset =
      Inr ((checksums, digest), content) \<longrightarrow>
    (\<exists>plain. decrypt_segments decrypt_block secret
                (segments segment_size (drop offset file)) = Inr plain \<and>
             digest = sha plain)) \<and>
   (0 < segment_size \<longrightarrow> part_size \<le> length (drop offset file) \<longrightarrow>
    decrypt_segments decrypt_block secret (segments segment_size (drop offset file)) = Inr plain \<longrightarrow>
    (\<exists>cs. compute_checksums sha decrypt_block part_size segment_size file secret offset =
            Inr ((cs, sha plain), drop offset file)))"
proof (intro conjI impI)
  assume ret: "compute_checksums sha decrypt_block part_size segment_size file secret offset =
      Inr ((checksums, digest), content)"
  show "\<exists>plain. decrypt_segments decrypt_block secret
                (segments segment_size (drop offset file)) = Inr plain \<and> digest = sha plain"
  proof (cases "decrypt_segments decrypt_block secret (segments segment_size (drop offset file))")
    case (Inl e)
    from compute_checksums_decrypt_error [OF Inl] ret show ?thesis by simp
  next
    case (Inr plain)
    from checksum_loop_forward [where decrypt_block = decrypt_block and secret = secret
      and segment_size = segment_size and source = "drop offset file" and sha = sha
      and part_size = part_size and st = initial_state] Inr
    obtain st where
      "checksum_loop sha decrypt_block part_size segment_size secret
         (take segment_size (drop offset file)) (drop segment_size (drop offset file))
         initial_state = Inr st" and "total_checksum st = plain"
      by (auto simp add: initial_state_def)
    with ret have "digest = sha plain"
      by (auto simp add: compute_checksums_def split: sum.splits simp del: drop_drop)
    with Inr show ?thesis by simp
  qed
next
  assume seg: "0 < segment_size" and long: "part_size \<le> length (drop offset file)"
    and dec: "decrypt_segments decrypt_block secret (segments segment_size (drop offset file)) =
                Inr plain"
  from compute_checksums_final [OF dec seg, where sha = sha and part_size = part_size]
  obtain st parts source' where
    res: "compute_checksums sha decrypt_block part_size segment_size file secret offset =
             (case last_part sha st of
                Inl e \<Rightarrow> Inl e
              | Inr checksums \<Rightarrow> Inr ((checksums, sha plain), drop offset file))" and
    out: "outfile st = drop offset file" and
    inv: "loop_inv sha part_size (drop offset file) [] source' st parts"
    by blast
  have "part_buffer st = [] \<or> file_part st \<noteq> None"
  proof (cases "parts = []")
    case True
    with inv out long show ?thesis by (auto simp add: loop_inv_def)
  next
    case False
    with inv show ?thesis by (simp add: loop_inv_def)
  qed
  then have "\<exists>cs. last_part sha st = Inr cs"
    by (auto simp add: last_part_def)
  then obtain cs where "last_part sha st = Inr cs" ..
  with res show "\<exists>cs. compute_checksums sha decrypt_block part_size segment_size file secret offset =
            Inr ((cs, sha plain), drop offset file)" by simp
qed


theorem whole_file_digest_witness:
  "compute_checksums example_sha example_decrypt_block 3 2 [9, 1, 2, 1, 3, 1, 4] [1] 1 =
     Inr (([''010201'', ''030104''], ''020304''), [1, 2, 1, 3, 1, 4]) \<and>
   decrypt_segments example_decrypt_block [1] (segments 2 (drop 1 [9, 1, 2, 1, 3, 1, 4])) =
     Inr [2, 3, 4] \<and>
   ''020304'' = example_sha [2, 3, 4] \<and> (0::nat) < 2 \<and>
   3 \<le> length (drop 1 [9, 1, 2, 1, 3, 1, 4 :: byte])"
proof -
  have c: "compute_checksums example_sha example_decrypt_block 3 2 [9, 1, 2, 1, 3, 1, 4] [1] 1 =
     Inr (([''010201'', ''030104''], ''020304''), [1, 2, 1, 3, 1, 4])"
    by (simp add: compute_checksums_def checksum_loop.simps iteration_def emit_part_def
          last_part_def initial_state_def example_sha_def hex_digit_def)
  from whole_file_digest [of example_sha example_decrypt_block 3 2 "[9, 1, 2, 1, 3, 1, 4]" "[1]" 1
      "[''010201'', ''030104'']" "''020304''" "[1, 2, 1, 3, 1, 4]" "[2, 3, 4]"] c
  show ?thesis
    by (simp add: segments.simps example_sha_def hex_digit_def)
qed


text \<open>
  C1. For a body of \<open>3 * part_size + r\<close> bytes with \<open>0 < r < part_size\<close>, segments no
  longer than a part and all decrypting, \<^verbatim>\<open>compute_checksums\<close> returns four part
  digests. The first three are the digests of the three full parts. The fourth is the
  digest of \<^verbatim>\<open>file_part\<close>, which still holds the third full part: it is the third
  digest once more, not the digest of the last \<open>r\<close> bytes that are in the buffer.
\<close>

theorem last_digest_is_stale:
  assumes seg: "0 < segment_size" and le: "segment_size \<le> part_size"
    and len: "length (drop offset file) = 3 * part_size + r"
    and r: "0 < r" "r < part_size"
    and dec: "decrypt_segments decrypt_block secret (segments segment_size (drop offset file)) =
                Inr plain"
  shows "compute_checksums sha decrypt_block part_size segment_size file secret offset =
           Inr (([sha (take part_size (drop (0 * part_size) (drop offset file))),
                  sha (take part_size (drop (1 * part_size) (drop offset file))),
                  sha (take part_size (drop (2 * part_size) (drop offset file))),
                  sha (take part_size (drop (2 * part_size) (drop offset file)))],
                 sha plain),
                drop offset file)"
proof -
  let ?body = "drop offset file"
  from r have pos: "0 < part_size" by simp
  from compute_checksums_final [OF dec seg, where sha = sha and part_size = part_size]
  obtain st parts source' where
    res: "compute_checksums sha decrypt_block part_size segment_size file secret offset =
             (case last_part sha st of
                Inl e \<Rightarrow> Inl e
              | Inr checksums \<Rightarrow> Inr ((checksums, sha plain), ?body))" and
    out: "outfile st = ?body" and
    head: "loop_head sha decrypt_block part_size segment_size secret ?body [] source' st" and
    inv: "loop_inv sha part_size ?body [] source' st parts"
    by blast
  from inv have uni: "\<forall>p \<in> set parts. length p = part_size"
    and split: "outfile st = concat parts @ part_buffer st"
    and cs: "encrypted_part_checksums st = map sha parts"
    and fp: "file_part st = (if parts = [] then None else Some (last parts))"
    by (simp_all add: loop_inv_def)
  have bound: "length (part_buffer st) < part_size"
    by (rule loop_head_buffer_bound [OF head pos le])
  have "length ?body = length (concat parts) + length (part_buffer st)"
    unfolding out [symmetric] by (subst split) (simp del: length_concat)
  then have total: "length parts * part_size + length (part_buffer st) = 3 * part_size + r"
    using len uniform_concat_length [OF uni] by simp
  have "(length parts * part_size + length (part_buffer st)) div part_size = length parts"
    using bound by simp
  moreover have "(3 * part_size + r) div part_size = 3"
    using r by simp
  ultimately have n: "length parts = 3"
    using total by simp
  with total have buf: "length (part_buffer st) = r" by simp
  have nth: "parts ! i = take part_size (drop (i * part_size) ?body)" if "i < 3" for i
  proof -
    from that n have i: "i < length parts" by simp
    have b: "?body = concat parts @ part_buffer st"
      using out split by simp
    show ?thesis
      by (subst b) (rule uniform_concat_nth [OF uni i, symmetric])
  qed
  have parts: "parts = [take part_size (drop (0 * part_size) ?body),
                        take part_size (drop (1 * part_size) ?body),
                        take part_size (drop (2 * part_size) ?body)]"
    using three_parts [OF n] nth [of 0] nth [of 1] nth [of 2] by simp
  have "last_part sha st =
          Inr ([sha (take part_size (drop (0 * part_size) ?body)),
                sha (take part_size (drop (1 * part_size) ?body)),
                sha (take part_size (drop (2 * part_size) ?body)),
                sha (take part_size (drop (2 * part_size) ?body))])"
    unfolding last_part_def cs fp
    using buf r(1) by (subst (1 2 3) parts) simp
  with res show ?thesis by simp
qed


theorem last_digest_is_stale_witness:
  "(0::nat) < 2 \<and> (2::nat) \<le> 3 \<and>
   length (drop 0 [1, 2, 1, 3, 1, 4, 1, 5, 1, 6 :: byte]) = 3 * 3 + 1 \<and> (0::nat) < 1 \<and>
   (1::nat) < 3 \<and>
   decrypt_segments example_decrypt_block [1]
     (segments 2 (drop 0 [1, 2, 1, 3, 1, 4, 1, 5, 1, 6])) = Inr [2, 3, 4, 5, 6] \<and>
   compute_checksums example_sha example_decrypt_block 3 2 [1, 2, 1, 3, 1, 4, 1, 5, 1, 6] [1] 0 =
     Inr (([''010201'', ''030104'', ''010501'', ''010501''], ''0203040506''),
          [1, 2, 1, 3, 1, 4, 1, 5, 1, 6]) \<and>
   example_sha (drop (3 * 3) [1, 2, 1, 3, 1, 4, 1, 5, 1, 6]) = ''06''"
proof -
  have d: "decrypt_segments example_decrypt_block [1]
     (segments 2 (drop 0 [1, 2, 1, 3, 1, 4, 1, 5, 1, 6])) = Inr [2, 3, 4, 5, 6]"
    by (simp add: segments.simps)
  from last_digest_is_stale [of 2 3 0 "[1, 2, 1, 3, 1, 4, 1, 5, 1, 6]" 1
      example_decrypt_block "[1]" "[2, 3, 4, 5, 6]" example_sha] d
  show ?thesis
    by (simp add: example_sha_def hex_digit_def)
qed


end
